theory Spec2Isabelle
  imports Complex_Main
begin

section \<open>The JavaScript values the program computes with\<close>

text \<open>
  A \<^verbatim>\<open>Date\<close> object is modelled by the number of its local calendar day, counted from
  Thursday 1 January 1970 (day 0). The time of day, which \<^verbatim>\<open>new Date(date)\<close> copies and
  \<^verbatim>\<open>setDate\<close> leaves alone, is not modelled: \<^verbatim>\<open>date.setDate(date.getDate() + 1)\<close> is
  \<open>date + 1\<close>, and two dates compare as their day numbers do.
\<close>

type_synonym date = int

text \<open>\<^verbatim>\<open>Date.prototype.getDay\<close>: 0 is Sunday, 1 Monday, ..., 6 Saturday.\<close>

definition getDay :: "date \<Rightarrow> int" where
  "getDay d = (d + 4) mod 7"

text \<open>
  \<^verbatim>\<open>Date.prototype.getDate\<close>: the day of the month, 1 to 31, of the proleptic Gregorian
  calendar, computed from the day number by eras of 400 years (146097 days) that start on
  1 March.
\<close>

definition getDate :: "date \<Rightarrow> int" where
  "getDate d =
     (let z = d + 719468;
          doe = z mod 146097;
          yoe = (doe - doe div 1460 + doe div 36524 - doe div 146096) div 365;
          doy = doe - (365 * yoe + yoe div 4 - yoe div 100);
          mp = (5 * doy + 2) div 153
      in doy - (153 * mp + 2) div 5 + 1)"

text \<open>
  A JavaScript number that is an integer or \<^verbatim>\<open>NaN\<close>. The remainder operator \<^verbatim>\<open>%\<close> takes the
  sign of the dividend and gives \<^verbatim>\<open>NaN\<close> for a zero divisor; arithmetic with \<^verbatim>\<open>NaN\<close> gives
  \<^verbatim>\<open>NaN\<close>, and every comparison with \<^verbatim>\<open>NaN\<close> is false.
\<close>

datatype number = NaN | Num int

definition js_rem :: "int \<Rightarrow> int \<Rightarrow> number" where
  "js_rem a b = (if b = 0 then NaN else Num (sgn a * (\<bar>a\<bar> mod \<bar>b\<bar>)))"

fun js_minus :: "number \<Rightarrow> number \<Rightarrow> number" where
  "js_minus (Num a) (Num b) = Num (a - b)"
| "js_minus _ _ = NaN"

fun js_less :: "number \<Rightarrow> number \<Rightarrow> bool" where
  "js_less (Num a) (Num b) = (a < b)"
| "js_less _ _ = False"

text \<open>
  \<^verbatim>\<open>Array.prototype.slice(start, end)\<close> on integer arguments: a negative index counts from
  the end of the array, both indices are clamped to the array, and an empty range gives
  the empty array.
\<close>

definition slice :: "'a list \<Rightarrow> int \<Rightarrow> int \<Rightarrow> 'a list" where
  "slice xs start final =
     (let len = int (length xs);
          k = (if start < 0 then max (len + start) 0 else min start len);
          e = (if final < 0 then max (len + final) 0 else min final len);
          count = max (e - k) 0
      in take (nat count) (drop (nat k) xs))"

section \<open>generateDates\<close>

text \<open>
  The first loop of \<^verbatim>\<open>generateDates\<close> (App.js, lines 17 to 23): it collects dates that are
  not Sundays until \<^verbatim>\<open>validDays\<close> reaches 28, and returns the array together with the
  walk cursor \<^verbatim>\<open>date\<close>.
\<close>

function generateDates_while :: "date list \<Rightarrow> date \<Rightarrow> int \<Rightarrow> date list \<times> date" where
  "generateDates_while dates date validDays =
     (if validDays < 28 then
        (if getDay date \<noteq> 0
         then generateDates_while (dates @ [date]) (date + 1) (validDays + 1)
         else generateDates_while dates (date + 1) validDays)
      else (dates, date))"
  by pat_completeness auto
termination
  by (relation "measure (\<lambda>(dates, date, validDays).
        nat (2 * (28 - validDays)) + (if getDay date = 0 then 1 else 0))")
     (auto simp: getDay_def, presburger)

text \<open>
  The padding loop (lines 31 to 38): each turn first advances the cursor, then pushes the
  date unless it is a Sunday, in which case \<^verbatim>\<open>i--\<close> cancels the \<^verbatim>\<open>i++\<close> of the loop header.
\<close>

function generateDates_for :: "date list \<Rightarrow> date \<Rightarrow> int \<Rightarrow> number \<Rightarrow> date list" where
  "generateDates_for dates date i extraDaysNeeded =
     (if js_less (Num i) extraDaysNeeded then
        (if getDay (date + 1) \<noteq> 0
         then generateDates_for (dates @ [date + 1]) (date + 1) (i + 1) extraDaysNeeded
         else generateDates_for dates (date + 1) (i - 1 + 1) extraDaysNeeded)
      else dates)"
  by pat_completeness auto
termination
  by (relation "measure (\<lambda>(dates, date, i, extraDaysNeeded).
        (case extraDaysNeeded of NaN \<Rightarrow> 0 | Num e \<Rightarrow> nat (2 * (e - i)))
        + (if getDay (date + 1) = 0 then 1 else 0))")
     (auto simp: getDay_def split: number.splits, presburger)

text \<open>
  \<^verbatim>\<open>generateDates\<close> itself. The clock read \<^verbatim>\<open>new Date()\<close> is the parameter \<open>today\<close>.
\<close>

definition generateDates :: "date \<Rightarrow> int \<Rightarrow> date list" where
  "generateDates today groupSize =
     (case generateDates_while [] today 0 of (dates, date) \<Rightarrow>
        let remainder = js_rem (int (length dates)) groupSize in
        if remainder \<noteq> Num 0 then
          let extraDaysNeeded = js_minus (Num groupSize) remainder
          in generateDates_for dates date 0 extraDaysNeeded
        else dates)"

section \<open>groupDates\<close>

text \<open>
  The loop of \<^verbatim>\<open>groupDates\<close> (lines 55 to 59). Nothing in the source bounds the number of
  turns, so the loop is a partial function: \<open>None\<close> is a run that never returns.
\<close>

partial_function (option) groupDates_while ::
  "'a list \<Rightarrow> int \<Rightarrow> 'a list list \<Rightarrow> int \<Rightarrow> 'a list list option" where
  "groupDates_while dates groupSize grouped i =
     (if i < int (length dates)
      then groupDates_while dates groupSize
             (grouped @ [slice dates i (i + groupSize)]) (i + groupSize)
      else Some grouped)"

definition groupDates :: "'a list \<Rightarrow> int \<Rightarrow> 'a list list option" where
  "groupDates dates groupSize = groupDates_while dates groupSize [] 0"

section \<open>isUnavailable\<close>

text \<open>The values \<^verbatim>\<open>isUnavailable\<close> returns: a string or a boolean.\<close>

datatype jsval = JString string | JBool bool

definition isUnavailable :: "date \<Rightarrow> string \<Rightarrow> bool \<Rightarrow> jsval" where
  "isUnavailable date slot isSpecialItem =
     (let day = getDay date;
          isFriday = (day = 5);
          isWednesday = (day = 3)
      in if isSpecialItem \<and> isWednesday then JString ''unavailable''
         else
           let isSecondFriday = (\<lceil>real_of_int (getDate date) / 7\<rceil> mod 2 = 0)
           in if isFriday \<and> isSecondFriday \<and> slot = ''AM'' then JString ''full''
              else JBool False)"

text \<open>
  The three states of a cell, as the \<^verbatim>\<open>Slot\<close> component (lines 106 to 110) reads the
  returned value: \<^verbatim>\<open>'unavailable'\<close>, \<^verbatim>\<open>'full'\<close>, and anything else is a selectable cell.
\<close>

datatype AvailabilityResult = Available | Unavailable | Full

definition availability :: "jsval \<Rightarrow> AvailabilityResult" where
  "availability status =
     (if status = JString ''unavailable'' then Unavailable
      else if status = JString ''full'' then Full
      else Available)"

section \<open>Auxiliary notions for the proofs\<close>

text \<open>
  The number of dates the padding loop still has to push when its counter is \<open>i\<close> and its
  bound is \<open>extraDaysNeeded\<close>: none when the bound is \<^verbatim>\<open>NaN\<close>.
\<close>

fun padding :: "int \<Rightarrow> number \<Rightarrow> nat" where
  "padding i NaN = 0"
| "padding i (Num e) = nat (e - i)"

text \<open>The number of calendar days between the first and the last date of an array.\<close>

definition span :: "date list \<Rightarrow> int" where
  "span ds = last ds - hd ds"

declare generateDates_while.simps [simp del]
declare generateDates_for.simps [simp del]
declare groupDates_while.simps [code]

section \<open>Properties of generateDates\<close>

lemma generateDates_while_inv:
  "generateDates_while dates date v = (ds, c) \<Longrightarrow>
   \<exists>new. ds = dates @ new \<and> length new = nat (28 - v) \<and>
         (\<forall>d\<in>set new. getDay d \<noteq> 0 \<and> date \<le> d \<and> d < c) \<and>
         sorted_wrt (<) new \<and> date \<le> c \<and>
         (new = [] \<longrightarrow> c = date) \<and> (new \<noteq> [] \<longrightarrow> c = last new + 1)"
proof (induction dates date v arbitrary: ds c rule: generateDates_while.induct)
  case (1 dates date v)
  show ?case
  proof (cases "v < 28")
    case False
    with "1.prems" have "ds = dates" "c = date"
      by (simp_all add: generateDates_while.simps [of dates date v])
    with False show ?thesis by simp
  next
    case lt: True
    show ?thesis
    proof (cases "getDay date \<noteq> 0")
      case True
      with lt "1.prems"
      have run: "generateDates_while (dates @ [date]) (date + 1) (v + 1) = (ds, c)"
        by (simp add: generateDates_while.simps [of dates date v])
      from "1.IH"(1) [OF lt True run] obtain new where
        n: "ds = (dates @ [date]) @ new" "length new = nat (28 - (v + 1))"
           "\<forall>d\<in>set new. getDay d \<noteq> 0 \<and> date + 1 \<le> d \<and> d < c"
           "sorted_wrt (<) new" "date + 1 \<le> c"
           "new = [] \<longrightarrow> c = date + 1" "new \<noteq> [] \<longrightarrow> c = last new + 1"
        by blast
      let ?new = "date # new"
      have "ds = dates @ ?new" using n(1) by simp
      moreover have "length ?new = nat (28 - v)" using n(2) lt by simp
      moreover have "\<forall>d\<in>set ?new. getDay d \<noteq> 0 \<and> date \<le> d \<and> d < c"
        using n(3,5) True by auto
      moreover have "sorted_wrt (<) ?new" using n(3,4) by auto
      moreover have "date \<le> c" using n(5) by simp
      moreover have "c = last ?new + 1" using n(6,7) by simp
      ultimately show ?thesis by blast
    next
      case False
      with lt "1.prems"
      have run: "generateDates_while dates (date + 1) v = (ds, c)"
        by (simp add: generateDates_while.simps [of dates date v])
      from "1.IH"(2) [OF lt False run] obtain new where
        n: "ds = dates @ new" "length new = nat (28 - v)"
           "\<forall>d\<in>set new. getDay d \<noteq> 0 \<and> date + 1 \<le> d \<and> d < c"
           "sorted_wrt (<) new" "date + 1 \<le> c"
           "new \<noteq> [] \<longrightarrow> c = last new + 1"
        by blast
      have ne: "new \<noteq> []" using n(2) lt by auto
      have "\<forall>d\<in>set new. getDay d \<noteq> 0 \<and> date \<le> d \<and> d < c"
        using n(3) by auto
      moreover have "date \<le> c" using n(5) by simp
      ultimately show ?thesis using n(1,2,4,6) ne by blast
    qed
  qed
qed

lemma generateDates_for_inv:
  "\<exists>new. generateDates_for dates date i x = dates @ new \<and> length new = padding i x \<and>
         (\<forall>d\<in>set new. getDay d \<noteq> 0 \<and> date < d) \<and> sorted_wrt (<) new"
proof (induction dates date i x rule: generateDates_for.induct)
  case (1 dates date i x)
  show ?case
  proof (cases "js_less (Num i) x")
    case False
    then have "generateDates_for dates date i x = dates"
      by (simp add: generateDates_for.simps [of dates date i x])
    moreover from False have "padding i x = 0" by (cases x) auto
    ultimately show ?thesis by simp
  next
    case lt: True
    then obtain e where x: "x = Num e" and ie: "i < e" by (cases x) auto
    show ?thesis
    proof (cases "getDay (date + 1) \<noteq> 0")
      case True
      from "1.IH"(1) [OF lt True] obtain new where
        n: "generateDates_for (dates @ [date + 1]) (date + 1) (i + 1) x = (dates @ [date + 1]) @ new"
           "length new = padding (i + 1) x"
           "\<forall>d\<in>set new. getDay d \<noteq> 0 \<and> date + 1 < d" "sorted_wrt (<) new"
        by blast
      let ?new = "(date + 1) # new"
      have "generateDates_for dates date i x = dates @ ?new"
        using n(1) lt True by (simp add: generateDates_for.simps [of dates date i x])
      moreover have "length ?new = padding i x" using n(2) x ie by simp
      moreover have "\<forall>d\<in>set ?new. getDay d \<noteq> 0 \<and> date < d" using n(3) True by auto
      moreover have "sorted_wrt (<) ?new" using n(3,4) by auto
      ultimately show ?thesis by blast
    next
      case False
      from "1.IH"(2) [OF lt False] obtain new where
        n: "generateDates_for dates (date + 1) (i - 1 + 1) x = dates @ new"
           "length new = padding (i - 1 + 1) x"
           "\<forall>d\<in>set new. getDay d \<noteq> 0 \<and> date + 1 < d" "sorted_wrt (<) new"
        by blast
      have "generateDates_for dates date i x = dates @ new"
        using n(1) lt False by (simp add: generateDates_for.simps [of dates date i x])
      moreover have "length new = padding i x" using n(2) by simp
      moreover have "\<forall>d\<in>set new. getDay d \<noteq> 0 \<and> date < d" using n(3) by auto
      ultimately show ?thesis using n(4) by blast
    qed
  qed
qed

lemma generateDates_split:
  obtains w p c where
    "generateDates_while [] today 0 = (w, c)"
    "generateDates today g = w @ p"
    "length w = 28"
    "\<forall>d\<in>set w. getDay d \<noteq> 0 \<and> today \<le> d \<and> d < c"
    "sorted_wrt (<) w"
    "c = last w + 1"
    "\<forall>d\<in>set p. getDay d \<noteq> 0 \<and> c < d"
    "sorted_wrt (<) p"
    "length p = (if js_rem 28 g = Num 0 then 0 else padding 0 (js_minus (Num g) (js_rem 28 g)))"
proof -
  obtain w c where run: "generateDates_while [] today 0 = (w, c)"
    by (cases "generateDates_while [] today 0")
  from generateDates_while_inv [OF run] obtain new where
    n: "w = [] @ new" "length new = nat (28 - 0)"
       "\<forall>d\<in>set new. getDay d \<noteq> 0 \<and> today \<le> d \<and> d < c"
       "sorted_wrt (<) new" "new \<noteq> [] \<longrightarrow> c = last new + 1"
    by blast
  have w: "length w = 28" "\<forall>d\<in>set w. getDay d \<noteq> 0 \<and> today \<le> d \<and> d < c"
    "sorted_wrt (<) w" "c = last w + 1"
    using n by auto
  show thesis
  proof (cases "js_rem 28 g = Num 0")
    case True
    with run w(1) have "generateDates today g = w @ []"
      by (simp add: generateDates_def)
    with run w True show thesis by (intro that [of w c "[]"]) simp_all
  next
    case False
    let ?x = "js_minus (Num g) (js_rem 28 g)"
    from generateDates_for_inv [of w c 0 ?x] obtain p where
      p: "generateDates_for w c 0 ?x = w @ p" "length p = padding 0 ?x"
         "\<forall>d\<in>set p. getDay d \<noteq> 0 \<and> c < d" "sorted_wrt (<) p"
      by blast
    from run w(1) False p(1) have "generateDates today g = w @ p"
      by (simp add: generateDates_def)
    with run w False p show thesis by (intro that [of w c p]) simp_all
  qed
qed

lemma padding_pos:
  assumes "0 < g"
  shows "(if js_rem 28 g = Num 0 then 0 else padding 0 (js_minus (Num g) (js_rem 28 g)))
         = (if 28 mod g = 0 then 0 else nat (g - 28 mod g))"
  using assms by (simp add: js_rem_def)

text \<open>
  Claim C1. For every positive integer \<open>groupSize\<close> and every starting date,
  \<open>generateDates groupSize\<close> has length 28 when \<open>28 mod groupSize = 0\<close>, and otherwise
  length \<open>28 + (groupSize - 28 mod groupSize)\<close>; the length is a multiple of \<open>groupSize\<close>,
  it equals \<open>groupSize\<close> when \<open>groupSize\<close> exceeds 28, and it is 28, 30 and 30 for the group
  sizes 7, 5 and 3.
\<close>

theorem generateDates_length:
  assumes "0 < groupSize"
  shows "int (length (generateDates today groupSize)) =
           (if 28 mod groupSize = 0 then 28 else 28 + (groupSize - 28 mod groupSize))
         \<and> groupSize dvd int (length (generateDates today groupSize))
         \<and> (28 < groupSize \<longrightarrow> int (length (generateDates today groupSize)) = groupSize)
         \<and> length (generateDates today 7) = 28
         \<and> length (generateDates today 5) = 30
         \<and> length (generateDates today 3) = 30"
proof -
  have len: "int (length (generateDates today g)) =
           (if 28 mod g = 0 then 28 else 28 + (g - 28 mod g))" if "0 < g" for g
  proof -
    obtain w p where "generateDates today g = w @ p" "length w = 28"
      "length p = (if js_rem 28 g = Num 0 then 0 else padding 0 (js_minus (Num g) (js_rem 28 g)))"
      by (rule generateDates_split [of today g]) blast
    moreover have "g - 28 mod g > 0" using that
      by (simp add: pos_mod_bound)
    ultimately show ?thesis using padding_pos [OF that] by auto
  qed
  have "groupSize dvd int (length (generateDates today groupSize))"
  proof (cases "28 mod groupSize = 0")
    case True
    then show ?thesis using len [OF assms] by (simp add: dvd_eq_mod_eq_0)
  next
    case False
    have "(28 + (groupSize - 28 mod groupSize)) mod groupSize = 0"
      by (metis add.commute add_diff_eq diff_add_cancel minus_mod_eq_mult_div mod_mult_self2_is_0 mod_add_self1 mult.commute)
    then show ?thesis using len [OF assms] False by (simp add: dvd_eq_mod_eq_0)
  qed
  moreover have "28 < groupSize \<longrightarrow> int (length (generateDates today groupSize)) = groupSize"
    using len [OF assms] by (auto simp: mod_pos_pos_trivial)
  moreover have "length (generateDates today 7) = 28" using len [of 7] by simp
  moreover have "length (generateDates today 5) = 30" using len [of 5] by simp
  moreover have "length (generateDates today 3) = 30" using len [of 3] by simp
  ultimately show ?thesis using len [OF assms] by blast
qed

theorem generateDates_length_witness:
  "(0::int) < 5 \<and> int (length (generateDates 20759 5)) = 30 \<and> (5::int) dvd 30
   \<and> (0::int) < 30 \<and> int (length (generateDates 20759 30)) = 30
   \<and> (0::int) < 7 \<and> int (length (generateDates 20759 7)) = 28"
  using generateDates_length [of 5 20759] generateDates_length [of 30 20759]
    generateDates_length [of 7 20759]
  by simp

text \<open>
  Claim C5. For every positive integer \<open>groupSize\<close> and every starting date, no element of
  \<open>generateDates groupSize\<close> falls on a Sunday, whether it was collected by the first loop or
  by the padding loop.
\<close>

theorem generateDates_no_Sunday:
  assumes "0 < groupSize"
  shows "\<forall>d\<in>set (generateDates today groupSize). getDay d \<noteq> 0"
proof -
  obtain w p c where "generateDates today groupSize = w @ p"
    "\<forall>d\<in>set w. getDay d \<noteq> 0 \<and> today \<le> d \<and> d < c" "\<forall>d\<in>set p. getDay d \<noteq> 0 \<and> c < d"
    by (rule generateDates_split [of today groupSize]) blast
  then show ?thesis by auto
qed

text \<open>
  Started on Monday 2 November 2026 (day 20759) with groups of 5, the array holds a date
  pushed by the padding loop, Monday 7 December 2026 (day 20794), which is no Sunday; the
  Sunday before it (day 20793) is not in the array.
\<close>

theorem generateDates_no_Sunday_witness:
  "(0::int) < 5 \<and> 20794 \<in> set (generateDates 20759 5) \<and> getDay 20794 \<noteq> 0
   \<and> getDay 20793 = 0 \<and> 20793 \<notin> set (generateDates 20759 5)"
proof -
  have pos: "(0::int) < 5" by simp
  have mem: "20794 \<in> set (generateDates 20759 5)" by code_simp
  have sun: "getDay 20793 = 0" by (simp add: getDay_def)
  from generateDates_no_Sunday [OF pos, of 20759] mem sun
  show ?thesis by auto
qed

text \<open>
  Claim C6. For every positive integer \<open>groupSize\<close> and every starting date,
  \<open>generateDates groupSize\<close> is strictly chronologically increasing, and so holds no date
  twice.
\<close>

theorem generateDates_increasing:
  assumes "0 < groupSize"
  shows "sorted_wrt (<) (generateDates today groupSize) \<and> distinct (generateDates today groupSize)"
proof -
  obtain w p c where s: "generateDates today groupSize = w @ p"
    "\<forall>d\<in>set w. getDay d \<noteq> 0 \<and> today \<le> d \<and> d < c" "\<forall>d\<in>set p. getDay d \<noteq> 0 \<and> c < d"
    "sorted_wrt (<) w" "sorted_wrt (<) p"
    by (rule generateDates_split [of today groupSize]) blast
  have "sorted_wrt (<) (w @ p)"
    unfolding sorted_wrt_append using s(2-5) by fastforce
  then show ?thesis using s(1) by (simp add: strict_sorted_iff)
qed

theorem generateDates_increasing_witness:
  "(0::int) < 5 \<and> sorted_wrt (<) (generateDates 20759 5) \<and> distinct (generateDates 20759 5)
   \<and> generateDates 20759 5 ! 5 = 20764 \<and> generateDates 20759 5 ! 6 = 20766"
proof -
  have pos: "(0::int) < 5" by simp
  have "generateDates 20759 5 ! 5 = 20764" "generateDates 20759 5 ! 6 = 20766"
    by code_simp+
  with generateDates_increasing [OF pos, of 20759] show ?thesis by simp
qed

text \<open>
  Claim C9. Whenever the padding loop runs (\<open>groupSize\<close> positive and \<open>28 mod groupSize\<close> not
  zero), the calendar day right after the 28th collected date is not in the returned array,
  Sunday or not: the padding loop advances the cursor once more before its first test, so
  every padded date lies at least two days after the 28th date.
\<close>

theorem generateDates_gap:
  assumes "0 < groupSize" and "28 mod groupSize \<noteq> 0"
  shows "28 < length (generateDates today groupSize)
       \<and> generateDates today groupSize ! 27 + 1 \<notin> set (generateDates today groupSize)
       \<and> (\<forall>d\<in>set (drop 28 (generateDates today groupSize)).
            generateDates today groupSize ! 27 + 2 \<le> d)"
proof -
  obtain w p c where s: "generateDates today groupSize = w @ p" "length w = 28"
    "\<forall>d\<in>set w. getDay d \<noteq> 0 \<and> today \<le> d \<and> d < c" "c = last w + 1"
    "\<forall>d\<in>set p. getDay d \<noteq> 0 \<and> c < d"
    "length p = (if js_rem 28 groupSize = Num 0 then 0
                 else padding 0 (js_minus (Num groupSize) (js_rem 28 groupSize)))"
    by (rule generateDates_split [of today groupSize]) blast
  have "w \<noteq> []" using s(2) by auto
  then have l: "last w = w ! 27" using s(2) by (simp add: last_conv_nth)
  have n27: "generateDates today groupSize ! 27 = last w"
    using s(1,2) l by (simp add: nth_append)
  have "groupSize - 28 mod groupSize > 0" using assms(1) by (simp add: pos_mod_bound)
  then have "length p > 0" using s(6) padding_pos [OF assms(1)] assms(2) by simp
  then have "28 < length (generateDates today groupSize)" using s(1,2) by simp
  moreover have "generateDates today groupSize ! 27 + 1 \<notin> set (generateDates today groupSize)"
    using s(1,3,4,5) n27 by auto
  moreover have "\<forall>d\<in>set (drop 28 (generateDates today groupSize)).
            generateDates today groupSize ! 27 + 2 \<le> d"
    using s(1,2,4,5) n27 by auto
  ultimately show ?thesis by blast
qed

text \<open>
  Started on Monday 2 November 2026 with groups of 5, the 28th date is Thursday 3 December
  (day 20790); Friday 4 December (day 20791) is skipped though it is no Sunday, and the
  first padded date is Saturday 5 December (day 20792).
\<close>

theorem generateDates_gap_witness:
  "(0::int) < 5 \<and> (28::int) mod 5 \<noteq> 0 \<and> generateDates 20759 5 ! 27 = 20790
   \<and> getDay 20791 = 5 \<and> 20791 \<notin> set (generateDates 20759 5)
   \<and> generateDates 20759 5 ! 28 = 20792"
proof -
  have pos: "(0::int) < 5" and rem: "(28::int) mod 5 \<noteq> 0" by simp_all
  have n: "generateDates 20759 5 ! 27 = 20790" "generateDates 20759 5 ! 28 = 20792"
    by code_simp+
  from generateDates_gap [OF pos rem, of 20759] n show ?thesis
    by (simp add: getDay_def)
qed

lemma getDay_shift: "getDay (d + 7 * k) = getDay d"
  by (simp add: getDay_def add.assoc [symmetric] add.commute mod_simps)

lemma generateDates_while_shift:
  "generateDates_while dates date v = (ds, c) \<Longrightarrow>
   generateDates_while (map (\<lambda>d. d + 7 * k) dates) (date + 7 * k) v
     = (map (\<lambda>d. d + 7 * k) ds, c + 7 * k)"
proof (induction dates date v arbitrary: ds c rule: generateDates_while.induct)
  case (1 dates date v)
  show ?case
  proof (cases "v < 28")
    case False
    with "1.prems" show ?thesis
      by (simp add: generateDates_while.simps [of _ _ v])
  next
    case lt: True
    show ?thesis
    proof (cases "getDay date \<noteq> 0")
      case True
      with lt "1.prems"
      have "generateDates_while (dates @ [date]) (date + 1) (v + 1) = (ds, c)"
        by (simp add: generateDates_while.simps [of dates date v])
      from "1.IH"(1) [OF lt True this]
      have "generateDates_while (map (\<lambda>d. d + 7 * k) dates @ [date + 7 * k])
              (date + 7 * k + 1) (v + 1) = (map (\<lambda>d. d + 7 * k) ds, c + 7 * k)"
        by (simp add: add.assoc add.commute [of 1])
      with lt True show ?thesis
        by (subst generateDates_while.simps) (simp add: getDay_shift)
    next
      case False
      with lt "1.prems"
      have "generateDates_while dates (date + 1) v = (ds, c)"
        by (simp add: generateDates_while.simps [of dates date v])
      from "1.IH"(2) [OF lt False this]
      have "generateDates_while (map (\<lambda>d. d + 7 * k) dates)
              (date + 7 * k + 1) v = (map (\<lambda>d. d + 7 * k) ds, c + 7 * k)"
        by (simp add: add.assoc add.commute [of 1])
      with lt False show ?thesis
        by (subst generateDates_while.simps) (simp add: getDay_shift)
    qed
  qed
qed

lemma generateDates_4: "generateDates today 4 = fst (generateDates_while [] today 0)"
proof -
  obtain w c where run: "generateDates_while [] today 0 = (w, c)"
    by (cases "generateDates_while [] today 0")
  from generateDates_while_inv [OF run] have "length w = 28" by auto
  with run show ?thesis by (simp add: generateDates_def js_rem_def)
qed

lemma generateDates_4_shift:
  "generateDates (r + 7 * k) 4 = map (\<lambda>d. d + 7 * k) (generateDates r 4)"
proof -
  obtain w c where run: "generateDates_while [] r 0 = (w, c)"
    by (cases "generateDates_while [] r 0")
  from generateDates_while_shift [OF run, of k] run show ?thesis
    by (simp add: generateDates_4)
qed

lemma span_base:
  "span (generateDates 0 4) = 32" "span (generateDates 1 4) = 32"
  "span (generateDates 2 4) = 32" "span (generateDates 3 4) = 31"
  "span (generateDates 4 4) = 31" "span (generateDates 5 4) = 31"
  "span (generateDates 6 4) = 31"
  by code_simp+

text \<open>
  Claim C8. For every starting date, the array \<open>generateDates 4\<close> is not empty, and the number
  of calendar days from its first to its last element is at least 27 and less than 35.
\<close>

theorem generateDates_4_span:
  "generateDates today 4 \<noteq> []
   \<and> 27 \<le> last (generateDates today 4) - hd (generateDates today 4)
   \<and> last (generateDates today 4) - hd (generateDates today 4) < 35"
proof -
  define r where "r = today mod 7"
  define k where "k = today div 7"
  have today: "today = r + 7 * k" by (simp add: r_def k_def)
  have "0 \<le> r" "r < 7" by (simp_all add: r_def)
  then consider "r = 0" | "r = 1" | "r = 2" | "r = 3" | "r = 4" | "r = 5" | "r = 6"
    by linarith
  then have base: "27 \<le> span (generateDates r 4) \<and> span (generateDates r 4) < 35"
    by cases (simp_all add: span_base)
  have len: "length (generateDates r 4) = 28"
    by (rule generateDates_split [of r 4]) (simp add: js_rem_def)
  then have ne: "generateDates r 4 \<noteq> []" by auto
  have "span (generateDates today 4) = span (generateDates r 4)"
    unfolding today generateDates_4_shift span_def using ne
    by (simp add: last_map hd_map)
  with base ne show ?thesis
    unfolding today generateDates_4_shift span_def by simp
qed

section \<open>Properties of groupDates\<close>

lemma slice_chunk:
  assumes "0 \<le> i" "i < int (length xs)" "0 < g"
  shows "slice xs i (i + g) = take (nat g) (drop (nat i) xs)"
proof (cases "i + g \<le> int (length xs)")
  case True
  with assms show ?thesis by (simp add: slice_def)
next
  case False
  with assms have "length (drop (nat i) xs) \<le> nat g" by simp
  with False assms show ?thesis by (simp add: slice_def)
qed

lemma groupDates_while_pos:
  assumes "0 < g" "0 \<le> i"
  shows "\<exists>gs. groupDates_while dates g grouped i = Some (grouped @ gs)
            \<and> concat gs = drop (nat i) dates
            \<and> (\<forall>x\<in>set gs. 1 \<le> length x \<and> int (length x) \<le> g)
            \<and> (\<forall>x\<in>set (butlast gs). int (length x) = g)"
  using assms(2)
proof (induction "nat (int (length dates) - i)" arbitrary: grouped i rule: less_induct)
  case less
  show ?case
  proof (cases "i < int (length dates)")
    case False
    then have "groupDates_while dates g grouped i = Some (grouped @ [])"
      by (subst groupDates_while.simps) simp
    moreover from False have "drop (nat i) dates = []" by simp
    ultimately show ?thesis by force
  next
    case True
    let ?c = "take (nat g) (drop (nat i) dates)"
    have c: "slice dates i (i + g) = ?c"
      using slice_chunk [OF less.prems True assms(1)] .
    have smaller: "nat (int (length dates) - (i + g)) < nat (int (length dates) - i)"
      using True assms(1) by linarith
    have nonneg: "0 \<le> i + g" using less.prems assms(1) by simp
    from less.hyps [OF smaller nonneg, of "grouped @ [?c]"] obtain gs where
      gs: "groupDates_while dates g (grouped @ [?c]) (i + g) = Some ((grouped @ [?c]) @ gs)"
          "concat gs = drop (nat (i + g)) dates"
          "\<forall>x\<in>set gs. 1 \<le> length x \<and> int (length x) \<le> g"
          "\<forall>x\<in>set (butlast gs). int (length x) = g"
      by blast
    have run: "groupDates_while dates g grouped i = Some (grouped @ (?c # gs))"
      using True c gs(1) by (subst groupDates_while.simps) simp
    have "nat (i + g) = nat g + nat i" using less.prems assms(1) by simp
    then have cat: "concat (?c # gs) = drop (nat i) dates"
      using gs(2) by (simp add: drop_drop [symmetric] del: drop_drop)
    have lenc: "1 \<le> length ?c \<and> int (length ?c) \<le> g"
      using True less.prems assms(1) by auto
    have all: "\<forall>x\<in>set (?c # gs). 1 \<le> length x \<and> int (length x) \<le> g"
      using lenc gs(3) by simp
    have full: "int (length ?c) = g" if "gs \<noteq> []"
    proof -
      from that gs(3) have "concat gs \<noteq> []" by (cases gs) auto
      with gs(2) have "nat (i + g) < length dates" by simp
      then show ?thesis using less.prems assms(1) by auto
    qed
    have "\<forall>x\<in>set (butlast (?c # gs)). int (length x) = g"
      using full gs(4) by auto
    with run cat all show ?thesis by blast
  qed
qed

lemma groupDates_pos:
  assumes "0 < g"
  obtains gs where "groupDates dates g = Some gs" "concat gs = dates"
    "\<forall>x\<in>set gs. 1 \<le> length x \<and> int (length x) \<le> g"
    "\<forall>x\<in>set (butlast gs). int (length x) = g"
  using groupDates_while_pos [OF assms, of 0 dates "[]"]
  unfolding groupDates_def by auto

lemma groupDates_while_nonpos:
  assumes "g \<le> 0" "i < int (length dates)"
  shows "groupDates_while dates g grouped i = None"
proof (rule ccontr)
  assume "groupDates_while dates g grouped i \<noteq> None"
  then obtain r where r: "groupDates_while dates g grouped i = Some r" by auto
  have "\<not> (g \<le> 0 \<and> i < int (length dates))"
  proof (rule groupDates_while.raw_induct
      [where P = "\<lambda>ds n acc j res. \<not> (n \<le> 0 \<and> j < int (length ds))", OF _ r])
    fix loop ds n acc j res
    assume IH: "\<And>a b c d y. loop a b c d = Some y \<Longrightarrow> \<not> (b \<le> 0 \<and> d < int (length a))"
      and step: "(if j < int (length ds)
                  then loop ds n (acc @ [slice ds j (j + n)]) (j + n)
                  else Some acc) = Some res"
    show "\<not> (n \<le> 0 \<and> j < int (length ds))"
    proof
      assume a: "n \<le> 0 \<and> j < int (length ds)"
      with step have "loop ds n (acc @ [slice ds j (j + n)]) (j + n) = Some res"
        by simp
      from IH [OF this] a show False by simp
    qed
  qed
  with assms show False by simp
qed

lemma groupDates_nonpos:
  assumes "g \<le> 0" "dates \<noteq> []"
  shows "groupDates dates g = None"
  unfolding groupDates_def using assms by (intro groupDates_while_nonpos) simp_all

lemma groupDates_empty: "groupDates [] g = Some []"
  unfolding groupDates_def by (subst groupDates_while.simps) simp

lemma slice_empty: "slice xs i (i + 0) = []"
  by (simp add: slice_def Let_def)

text \<open>
  Claim C4. For every list of dates and every positive integer \<open>groupSize\<close>, \<open>groupDates\<close>
  returns, and the groups it returns, concatenated in order, are exactly the input list:
  nothing is dropped, duplicated or reordered. In particular this holds of the list
  \<open>generateDates groupSize\<close>, for the group sizes 3 to 7 as for every other positive one.
\<close>

theorem groupDates_concat:
  assumes "0 < groupSize"
  shows "(\<exists>groups. groupDates dates groupSize = Some groups \<and> concat groups = dates)
       \<and> (\<exists>groups. groupDates (generateDates today groupSize) groupSize = Some groups
              \<and> concat groups = generateDates today groupSize)"
proof -
  have "\<exists>groups. groupDates dates groupSize = Some groups \<and> concat groups = dates"
    by (rule groupDates_pos [OF assms, of dates]) blast
  moreover
  have "\<exists>groups. groupDates (generateDates today groupSize) groupSize = Some groups
          \<and> concat groups = generateDates today groupSize"
    by (rule groupDates_pos [OF assms, of "generateDates today groupSize"]) blast
  ultimately show ?thesis by blast
qed

theorem groupDates_concat_witness:
  "(0::int) < 2
   \<and> groupDates [10, 20, 30 :: int] 2 = Some [[10, 20], [30]]
   \<and> concat (the (groupDates [10, 20, 30 :: int] 2)) = [10, 20, 30]
   \<and> (0::int) < 5
   \<and> concat (the (groupDates (generateDates 20759 5) 5)) = generateDates 20759 5"
proof -
  have pos: "(0::int) < 2" "(0::int) < 5" by simp_all
  have run: "groupDates [10, 20, 30 :: int] 2 = Some [[10, 20], [30]]"
    by (simp add: groupDates_def groupDates_while.simps slice_def)
  from groupDates_concat [OF pos(1), of "[10, 20, 30 :: int]" 0]
  obtain g1 where "groupDates [10, 20, 30 :: int] 2 = Some g1" "concat g1 = [10, 20, 30]"
    by blast
  then have "concat (the (groupDates [10, 20, 30 :: int] 2)) = [10, 20, 30]" by simp
  moreover from groupDates_concat [OF pos(2), of "[] :: int list" 20759]
  obtain g2 where "groupDates (generateDates 20759 5) 5 = Some g2"
    "concat g2 = generateDates 20759 5"
    by blast
  then have "concat (the (groupDates (generateDates 20759 5) 5)) = generateDates 20759 5"
    by simp
  ultimately show ?thesis using run by simp
qed

text \<open>
  Claim C7. For every list of dates and every positive integer \<open>groupSize\<close>, every group
  returned by \<open>groupDates\<close> but the last has exactly \<open>groupSize\<close> elements, the last group
  has between 1 and \<open>groupSize\<close> elements, and no group is empty.
\<close>

theorem groupDates_sizes:
  assumes "0 < groupSize"
  shows "\<exists>groups. groupDates dates groupSize = Some groups
           \<and> (\<forall>x\<in>set (butlast groups). int (length x) = groupSize)
           \<and> (groups \<noteq> [] \<longrightarrow> 1 \<le> length (last groups) \<and> int (length (last groups)) \<le> groupSize)
           \<and> [] \<notin> set groups"
proof -
  obtain gs where gs: "groupDates dates groupSize = Some gs"
    "\<forall>x\<in>set gs. 1 \<le> length x \<and> int (length x) \<le> groupSize"
    "\<forall>x\<in>set (butlast gs). int (length x) = groupSize"
    by (rule groupDates_pos [OF assms, of dates]) blast
  have "[] \<notin> set gs" using gs(2) by force
  moreover have "gs \<noteq> [] \<longrightarrow> 1 \<le> length (last gs) \<and> int (length (last gs)) \<le> groupSize"
    using gs(2) last_in_set by blast
  ultimately show ?thesis using gs(1,3) by blast
qed

theorem groupDates_sizes_witness:
  "(0::int) < 2
   \<and> groupDates [10, 20, 30, 40, 50 :: int] 2 = Some [[10, 20], [30, 40], [50]]
   \<and> length (butlast (the (groupDates [10, 20, 30, 40, 50 :: int] 2)) ! 1) = 2
   \<and> length (last (the (groupDates [10, 20, 30, 40, 50 :: int] 2))) = 1"
proof -
  have pos: "(0::int) < 2" by simp
  have run: "groupDates [10, 20, 30, 40, 50 :: int] 2 = Some [[10, 20], [30, 40], [50]]"
    by (simp add: groupDates_def groupDates_while.simps slice_def)
  from groupDates_sizes [OF pos, of "[10, 20, 30, 40, 50 :: int]"] run
  show ?thesis by simp
qed

text \<open>
  Claim C10. \<open>groupDates\<close> returns for every list when \<open>groupSize\<close> is positive. For a
  non-empty list and a \<open>groupSize\<close> that is zero or negative the loop never returns: the
  index never passes the length of the list. With \<open>groupSize = 0\<close> the group cut at each
  turn, \<open>slice dates i (i + 0)\<close>, is empty.
\<close>

theorem groupDates_termination:
  "(0 < groupSize \<longrightarrow> (\<exists>groups. groupDates dates groupSize = Some groups))
   \<and> (groupSize \<le> 0 \<and> dates \<noteq> [] \<longrightarrow> groupDates dates groupSize = None)
   \<and> slice dates i (i + 0) = []"
proof -
  have "\<exists>groups. groupDates dates groupSize = Some groups" if "0 < groupSize"
    by (rule groupDates_pos [OF that, of dates]) blast
  then show ?thesis
    using groupDates_nonpos [of groupSize dates] slice_empty [of dates i] by blast
qed

theorem groupDates_termination_witness:
  "(0::int) < 2 \<and> groupDates [10, 20, 30 :: int] 2 = Some [[10, 20], [30]]
   \<and> (0::int) \<le> 0 \<and> [10, 20, 30 :: int] \<noteq> [] \<and> groupDates [10, 20, 30 :: int] 0 = None
   \<and> (-2::int) \<le> 0 \<and> groupDates [10, 20, 30 :: int] (-2) = None
   \<and> slice [10, 20, 30 :: int] 0 (0 + 0) = []"
proof -
  have run: "groupDates [10, 20, 30 :: int] 2 = Some [[10, 20], [30]]"
    by (simp add: groupDates_def groupDates_while.simps slice_def)
  from groupDates_termination [of 0 "[10, 20, 30 :: int]" 0]
    groupDates_termination [of "-2" "[10, 20, 30 :: int]" 0]
    groupDates_termination [of 2 "[10, 20, 30 :: int]" 0] run
  show ?thesis by simp
qed

section \<open>Properties of isUnavailable\<close>

lemma calendar_examples:
  "getDay 20033 = 3" "getDay 20035 = 5" "getDate 20035 = 8"
  "getDay 20028 = 5" "getDate 20028 = 1"
  by code_simp+

lemma ceiling_sevenths: "\<lceil>real_of_int n / 7\<rceil> = (n + 6) div 7"
proof -
  have "\<lceil>real_of_int n / real_of_int 7\<rceil> = - (- n div 7)"
    by (rule ceiling_divide_eq_div)
  also have "\<dots> = (n + 6) div 7" by presburger
  finally show ?thesis by simp
qed

text \<open>
  Claim C2. For every date, slot label and flag, \<open>isUnavailable\<close> applies its rules in this
  order: when the flag is set and the date is a Wednesday the result is \<^verbatim>\<open>'unavailable'\<close>,
  whatever the slot; otherwise, when the date is a Friday, the day of the month divided by 7
  and rounded up is even, and the slot is \<^verbatim>\<open>'AM'\<close>, the result is \<^verbatim>\<open>'full'\<close>; otherwise the
  result is \<^verbatim>\<open>false\<close>, an available cell.
\<close>

theorem isUnavailable_rules:
  "(isSpecialItem \<and> getDay date = 3 \<longrightarrow>
      isUnavailable date slot isSpecialItem = JString ''unavailable''
      \<and> availability (isUnavailable date slot isSpecialItem) = Unavailable)
   \<and> (\<not> (isSpecialItem \<and> getDay date = 3)
      \<and> getDay date = 5 \<and> \<lceil>real_of_int (getDate date) / 7\<rceil> mod 2 = 0 \<and> slot = ''AM'' \<longrightarrow>
      isUnavailable date slot isSpecialItem = JString ''full''
      \<and> availability (isUnavailable date slot isSpecialItem) = Full)
   \<and> (\<not> (isSpecialItem \<and> getDay date = 3)
      \<and> \<not> (getDay date = 5 \<and> \<lceil>real_of_int (getDate date) / 7\<rceil> mod 2 = 0 \<and> slot = ''AM'') \<longrightarrow>
      isUnavailable date slot isSpecialItem = JBool False
      \<and> availability (isUnavailable date slot isSpecialItem) = Available)"
  unfolding isUnavailable_def availability_def Let_def by auto

text \<open>
  Wednesday 6 November 2024 is day 20033; Friday 8 November 2024, in the second group of
  seven days of its month, is day 20035; Friday 1 November 2024 is day 20028.
\<close>

theorem isUnavailable_rules_witness:
  "getDay 20033 = 3 \<and> getDay 20035 = 5 \<and> getDate 20035 = 8
   \<and> getDay 20028 = 5 \<and> getDate 20028 = 1
   \<and> isUnavailable 20033 ''PM'' True = JString ''unavailable''
   \<and> isUnavailable 20033 ''PM'' False = JBool False
   \<and> isUnavailable 20035 ''AM'' False = JString ''full''
   \<and> isUnavailable 20035 ''AM'' True = JString ''full''
   \<and> isUnavailable 20035 ''PM'' False = JBool False
   \<and> isUnavailable 20028 ''AM'' False = JBool False"
  using isUnavailable_rules [of True 20033 "''PM''"]
    isUnavailable_rules [of False 20033 "''PM''"]
    isUnavailable_rules [of False 20035 "''AM''"]
    isUnavailable_rules [of True 20035 "''AM''"]
    isUnavailable_rules [of False 20035 "''PM''"]
    isUnavailable_rules [of False 20028 "''AM''"]
  using ceiling_sevenths [of 1] by (simp add: calendar_examples)

section \<open>Argument checking\<close>

text \<open>
  Claim C3 says that \<open>generateDates\<close> and \<open>groupDates\<close> fail with an InvalidArgument
  condition when \<open>groupSize\<close> is not a positive integer. The source has no check and no
  \<^verbatim>\<open>throw\<close>. Started on Monday 2 November 2026 (day 20759), \<open>generateDates\<close> returns
  the 28 dates of its first loop for the group size 0 (where \<^verbatim>\<open>28 % 0\<close> is \<^verbatim>\<open>NaN\<close>) and for
  the group size -5, and \<open>groupDates\<close> returns the empty list of groups for the empty list
  and the group size 0.
\<close>

theorem no_InvalidArgument_counterexample:
  "generateDates 20759 0 =
     [20759, 20760, 20761, 20762, 20763, 20764, 20766, 20767, 20768, 20769,
      20770, 20771, 20773, 20774, 20775, 20776, 20777, 20778, 20780, 20781,
      20782, 20783, 20784, 20785, 20787, 20788, 20789, 20790]
   \<and> generateDates 20759 (-5) = generateDates 20759 0
   \<and> groupDates ([] :: date list) 0 = Some []"
proof -
  have "groupDates ([] :: date list) 0 = Some []"
    by (simp add: groupDates_def groupDates_while.simps)
  moreover have "generateDates 20759 0 =
     [20759, 20760, 20761, 20762, 20763, 20764, 20766, 20767, 20768, 20769,
      20770, 20771, 20773, 20774, 20775, 20776, 20777, 20778, 20780, 20781,
      20782, 20783, 20784, 20785, 20787, 20788, 20789, 20790]"
    by code_simp
  moreover have "generateDates 20759 (-5) = generateDates 20759 0"
    by code_simp
  ultimately show ?thesis by simp
qed

text \<open>
  Claim C3, as amended. Neither function checks \<open>groupSize\<close>, and neither raises an error.
  For a \<open>groupSize\<close> that is zero or negative, \<open>generateDates\<close> returns the 28 dates of its
  first loop without padding; \<open>groupDates\<close> returns the empty list of groups for the empty
  list, and does not return for a non-empty list.
\<close>

theorem nonpositive_groupSize_unchecked:
  assumes "groupSize \<le> 0"
  shows "generateDates today groupSize = fst (generateDates_while [] today 0)
       \<and> length (generateDates today groupSize) = 28
       \<and> groupDates ([] :: 'a list) groupSize = Some []
       \<and> ((dates :: 'a list) \<noteq> [] \<longrightarrow> groupDates dates groupSize = None)"
proof -
  obtain w p c where s: "generateDates_while [] today 0 = (w, c)"
    "generateDates today groupSize = w @ p" "length w = 28"
    "length p = (if js_rem 28 groupSize = Num 0 then 0
                 else padding 0 (js_minus (Num groupSize) (js_rem 28 groupSize)))"
    by (rule generateDates_split [of today groupSize]) blast
  have "length p = 0"
  proof (cases "groupSize = 0")
    case True
    then show ?thesis using s(4) by (simp add: js_rem_def)
  next
    case False
    with assms have lt: "groupSize < 0" by simp
    then have r: "js_rem 28 groupSize = Num (28 mod (- groupSize))"
      by (simp add: js_rem_def)
    have "0 \<le> 28 mod (- groupSize)" using lt by simp
    then have "groupSize - 28 mod (- groupSize) \<le> 0" using lt by linarith
    then have "padding 0 (js_minus (Num groupSize) (Num (28 mod (- groupSize)))) = 0"
      by simp
    then show ?thesis using s(4) unfolding r by simp
  qed
  then have "generateDates today groupSize = w" using s(2) by simp
  with s(1,3) show ?thesis
    using groupDates_empty [of groupSize] groupDates_nonpos [OF assms, of dates] by simp
qed

theorem nonpositive_groupSize_unchecked_witness:
  "(0::int) \<le> 0 \<and> length (generateDates 20759 0) = 28
   \<and> groupDates ([] :: int list) 0 = Some []
   \<and> [20759 :: int] \<noteq> [] \<and> groupDates [20759 :: int] 0 = None
   \<and> (-5::int) \<le> 0 \<and> length (generateDates 20759 (-5)) = 28"
proof -
  have le: "(0::int) \<le> 0" "(-5::int) \<le> 0" by simp_all
  from nonpositive_groupSize_unchecked [OF le(1), of 20759 "[20759 :: int]", THEN conjunct2]
    nonpositive_groupSize_unchecked [OF le(2), of 20759 "[20759 :: int]", THEN conjunct2]
  show ?thesis by simp
qed

end
